theory Spec2Isabelle
  imports Complex_Main "HOL-Library.Word"
begin

section \<open>Platform values\<close>

text \<open>
  A JavaScript string is a sequence of UTF-16 code units, a \<open>Uint8Array\<close> a sequence of
  bytes, an \<open>Int16Array\<close> a sequence of 16-bit words read as two's complement.
  Exceptions of the platform are values of \<open>js_error\<close>; a function that can throw
  returns \<open>js_error + 'a\<close> with \<open>Inl\<close> for the exception.
\<close>

type_synonym byte = "8 word"
type_synonym code_unit = "16 word"
type_synonym jsstring = "code_unit list"

datatype js_error = InvalidCharacterError | RangeError | NotSupportedError
  | TypeError | QuotaExceededError

definition fromCharCode :: "byte \<Rightarrow> code_unit" where
  \<comment> \<open>\<open>String.fromCharCode(bytes[i])\<close> on an element of a \<open>Uint8Array\<close>\<close>
  "fromCharCode b = ucast b"

definition storeUint8 :: "code_unit \<Rightarrow> byte" where
  \<comment> \<open>\<open>bytes[i] = binaryString.charCodeAt(i)\<close>: a store into a \<open>Uint8Array\<close> keeps the low 8 bits\<close>
  "storeUint8 c = ucast c"

section \<open>The transport encoding: \<open>btoa\<close> and \<open>atob\<close>\<close>

text \<open>
  \<open>btoa\<close> and \<open>atob\<close> are the browser's functions. They are written here after the
  HTML standard: \<open>btoa\<close> throws when a code unit exceeds 255 and otherwise is the
  base64 encoding of RFC 4648 with padding; \<open>atob\<close> is the standard's forgiving-base64
  decoding (ASCII whitespace removed, up to two trailing \<open>=\<close> removed when the length is
  a multiple of four, a length of 1 modulo 4 or a character outside the alphabet
  rejected, the trailing 2 or 4 bits of a short last group discarded).
\<close>

definition b64char :: "nat \<Rightarrow> code_unit" where
  \<comment> \<open>the alphabet \<open>A-Z a-z 0-9 + /\<close>\<close>
  "b64char i =
     (if i < 26 then of_nat (65 + i)
      else if i < 52 then of_nat (97 + (i - 26))
      else if i < 62 then of_nat (48 + (i - 52))
      else if i = 62 then 43 else 47)"

definition b64index :: "code_unit \<Rightarrow> nat option" where
  "b64index c =
     (let n = unat c in
      if 65 \<le> n \<and> n \<le> 90 then Some (n - 65)
      else if 97 \<le> n \<and> n \<le> 122 then Some (n - 97 + 26)
      else if 48 \<le> n \<and> n \<le> 57 then Some (n - 48 + 52)
      else if n = 43 then Some 62
      else if n = 47 then Some 63
      else None)"

definition padChar :: code_unit where
  "padChar = 61"

fun toSextets :: "byte list \<Rightarrow> nat list" where
  "toSextets (a # b # c # rest) =
     [unat a div 4,
      (unat a mod 4) * 16 + unat b div 16,
      (unat b mod 16) * 4 + unat c div 64,
      unat c mod 64] @ toSextets rest"
| "toSextets [a, b] =
     [unat a div 4,
      (unat a mod 4) * 16 + unat b div 16,
      (unat b mod 16) * 4]"
| "toSextets [a] =
     [unat a div 4,
      (unat a mod 4) * 16]"
| "toSextets [] = []"

definition base64Encode :: "byte list \<Rightarrow> jsstring" where
  "base64Encode bs =
     map b64char (toSextets bs) @ replicate ((3 - length bs mod 3) mod 3) padChar"

definition btoa :: "jsstring \<Rightarrow> js_error + jsstring" where
  "btoa s =
     (if \<exists>c \<in> set s. 255 < unat c then Inl InvalidCharacterError
      else Inr (base64Encode (map ucast s)))"

definition isAsciiWhitespace :: "code_unit \<Rightarrow> bool" where
  "isAsciiWhitespace c \<longleftrightarrow> c = 9 \<or> c = 10 \<or> c = 12 \<or> c = 13 \<or> c = 32"

definition stripPadding :: "jsstring \<Rightarrow> jsstring" where
  \<comment> \<open>"if data ends with one or two \<open>=\<close>, remove them"\<close>
  "stripPadding s =
     (if 2 \<le> length s \<and> last s = padChar \<and> last (butlast s) = padChar
      then butlast (butlast s)
      else if s \<noteq> [] \<and> last s = padChar then butlast s
      else s)"

fun fromSextets :: "nat list \<Rightarrow> byte list" where
  "fromSextets (p # q # r # s # rest) =
     [of_nat (p * 4 + q div 16),
      of_nat ((q mod 16) * 16 + r div 4),
      of_nat ((r mod 4) * 64 + s)] @ fromSextets rest"
| "fromSextets [p, q, r] =
     [of_nat (p * 4 + q div 16),
      of_nat ((q mod 16) * 16 + r div 4)]"
| "fromSextets [p, q] = [of_nat (p * 4 + q div 16)]"
| "fromSextets [p] = []"
| "fromSextets [] = []"

fun sextetsOf :: "jsstring \<Rightarrow> nat list option" where
  "sextetsOf [] = Some []"
| "sextetsOf (c # cs) =
     (case b64index c of
        None \<Rightarrow> None
      | Some i \<Rightarrow> (case sextetsOf cs of None \<Rightarrow> None | Some is \<Rightarrow> Some (i # is)))"

definition atob :: "jsstring \<Rightarrow> js_error + jsstring" where
  "atob s =
     (let d = filter (\<lambda>c. \<not> isAsciiWhitespace c) s;
          d = (if length d mod 4 = 0 then stripPadding d else d)
      in if length d mod 4 = 1 then Inl InvalidCharacterError
         else (case sextetsOf d of
                 None \<Rightarrow> Inl InvalidCharacterError
               | Some is \<Rightarrow> Inr (map ucast (fromSextets is))))"

section \<open>The helpers of the live conversation component\<close>

text \<open>
  \<open>encodePCM\<close> appends one character per byte to \<open>binary\<close>, for \<open>i\<close> from 0 to the
  length, and hands the string to \<open>btoa\<close>.
\<close>

function encodePCM_loop :: "byte list \<Rightarrow> nat \<Rightarrow> jsstring \<Rightarrow> jsstring" where
  "encodePCM_loop bytes i binary =
     (if i < length bytes
      then encodePCM_loop bytes (i + 1) (binary @ [fromCharCode (bytes ! i)])
      else binary)"
  by pat_completeness auto
termination
  by (relation "measure (\<lambda>(bytes, i, binary). length bytes - i)") auto

declare encodePCM_loop.simps [simp del]

definition encodePCM :: "byte list \<Rightarrow> js_error + jsstring" where
  "encodePCM bytes = btoa (encodePCM_loop bytes 0 [])"

text \<open>
  \<open>decodeAudio\<close> calls \<open>atob\<close>, allocates a \<open>Uint8Array\<close> of the string's length
  (zero-filled) and stores the code unit at each index.
\<close>

function decodeAudio_loop :: "jsstring \<Rightarrow> nat \<Rightarrow> byte list \<Rightarrow> byte list" where
  "decodeAudio_loop binaryString i bytes =
     (if i < length binaryString
      then decodeAudio_loop binaryString (i + 1) (bytes[i := storeUint8 (binaryString ! i)])
      else bytes)"
  by pat_completeness auto
termination
  by (relation "measure (\<lambda>(binaryString, i, bytes). length binaryString - i)") auto

declare decodeAudio_loop.simps [simp del]

definition decodeAudio :: "jsstring \<Rightarrow> js_error + byte list" where
  "decodeAudio base64 =
     (case atob base64 of
        Inl e \<Rightarrow> Inl e
      | Inr binaryString \<Rightarrow>
          Inr (decodeAudio_loop binaryString 0 (replicate (length binaryString) 0)))"

text \<open>
  \<open>arrayBufferToBase64\<close> of the service layer: the same loop over a \<open>Uint8Array\<close> view
  of the buffer. An \<open>ArrayBuffer\<close> is its bytes.
\<close>

function arrayBufferToBase64_loop :: "byte list \<Rightarrow> nat \<Rightarrow> jsstring \<Rightarrow> jsstring" where
  "arrayBufferToBase64_loop bytes i binary =
     (if i < length bytes
      then arrayBufferToBase64_loop bytes (i + 1) (binary @ [fromCharCode (bytes ! i)])
      else binary)"
  by pat_completeness auto
termination
  by (relation "measure (\<lambda>(bytes, i, binary). length bytes - i)") auto

declare arrayBufferToBase64_loop.simps [simp del]

definition arrayBufferToBase64 :: "byte list \<Rightarrow> js_error + jsstring" where
  "arrayBufferToBase64 buffer = (let bytes = buffer in btoa (arrayBufferToBase64_loop bytes 0 []))"


section \<open>Sample conversion\<close>

text \<open>
  Captured samples are \<open>Float32\<close> values; they are modelled as real numbers (every
  finite float is one, and scaling by 32768, a power of two, is exact on them). A store
  into an \<open>Int16Array\<close> converts with \<open>ToInt16\<close>: truncate towards zero, then keep
  the value modulo \<open>2 ^ 16\<close>. Nothing clamps.
\<close>

definition jsTruncate :: "real \<Rightarrow> int" where
  "jsTruncate x = (if 0 \<le> x then \<lfloor>x\<rfloor> else \<lceil>x\<rceil>)"

definition toInt16 :: "real \<Rightarrow> 16 word" where
  "toInt16 x = word_of_int (jsTruncate x)"

function int16_loop :: "real list \<Rightarrow> nat \<Rightarrow> 16 word list \<Rightarrow> 16 word list" where
  \<comment> \<open>\<open>for (let i = 0; i < l; i++) int16[i] = inputData[i] * 32768\<close>\<close>
  "int16_loop inputData i int16 =
     (if i < length inputData
      then int16_loop inputData (i + 1) (int16[i := toInt16 (inputData ! i * 32768)])
      else int16)"
  by pat_completeness auto
termination
  by (relation "measure (\<lambda>(inputData, i, int16). length inputData - i)") auto

declare int16_loop.simps [simp del]

definition toPCM16 :: "real list \<Rightarrow> 16 word list" where
  "toPCM16 inputData = int16_loop inputData 0 (replicate (length inputData) 0)"

text \<open>
  \<open>new Uint8Array(int16.buffer)\<close> views the samples as bytes, low byte first (the byte
  order of every platform the application runs on). \<open>new Int16Array(audioData.buffer)\<close>
  is the opposite view and throws a \<open>RangeError\<close> when the byte length is odd.
\<close>

fun bytesOfInt16 :: "16 word list \<Rightarrow> byte list" where
  "bytesOfInt16 [] = []"
| "bytesOfInt16 (w # ws) = ucast w # ucast (drop_bit 8 w) # bytesOfInt16 ws"

fun pairBytes :: "byte list \<Rightarrow> 16 word list" where
  "pairBytes (lo # hi # rest) = (ucast lo + push_bit 8 (ucast hi)) # pairBytes rest"
| "pairBytes [lo] = []"
| "pairBytes [] = []"

definition int16View :: "byte list \<Rightarrow> js_error + 16 word list" where
  "int16View bytes = (if odd (length bytes) then Inl RangeError else Inr (pairBytes bytes))"

section \<open>Loudness of a captured frame\<close>

text \<open>
  \<open>Math.sqrt(sum / inputData.length)\<close>. On an empty frame the quotient is \<open>0 / 0\<close>,
  which is \<open>NaN\<close> in JavaScript; \<open>None\<close> stands for it.
\<close>

function volume_loop :: "real list \<Rightarrow> nat \<Rightarrow> real \<Rightarrow> real" where
  \<comment> \<open>\<open>for (let i = 0; i < inputData.length; i++) sum += inputData[i] * inputData[i]\<close>\<close>
  "volume_loop inputData i acc =
     (if i < length inputData
      then volume_loop inputData (i + 1) (acc + inputData ! i * inputData ! i)
      else acc)"
  by pat_completeness auto
termination
  by (relation "measure (\<lambda>(inputData, i, acc). length inputData - i)") auto

declare volume_loop.simps [simp del]

definition frameVolume :: "real list \<Rightarrow> real option" where
  "frameVolume inputData =
     (if length inputData = 0 then None
      else Some (sqrt (volume_loop inputData 0 0 / real (length inputData))))"

section \<open>The live conversation component\<close>

text \<open>
  The component's state: its \<open>useState\<close> cells and its refs, followed by the browser
  objects they point to. Streams, audio contexts, promises and buffer source nodes are
  kept in stores indexed by their order of creation, because a ref is overwritten by a
  later \<open>startSession\<close> while the object it pointed to stays alive.
\<close>

datatype status = Idle | Connecting | Connected | Error

text \<open>
  The promise of the connection. \<open>p.then(callback)\<close>, as the capture handler calls it,
  has no rejection handler and its result is thrown away: it derives a promise that
  nothing observes. While \<open>p\<close> is pending the callback waits on \<open>p\<close>; when \<open>p\<close> is
  fulfilled the callback runs; when \<open>p\<close> is or becomes rejected the derived promise is
  rejected too, and the host reports it as an unhandled rejection, once for every
  \<open>then\<close>. The \<open>await\<close> of \<open>startSession\<close> sits in a \<open>try\<close>, so its rejection is handled.
\<close>

datatype promise =
    Pending "jsstring list"  \<comment> \<open>the \<open>then\<close> callbacks registered so far, each with its \<open>pcmData\<close>\<close>
  | Fulfilled
  | Rejected

record source =
  startTime :: real   \<comment> \<open>the argument of \<open>source.start\<close>\<close>
  duration :: real    \<comment> \<open>\<open>buffer.duration\<close>\<close>
  stopped :: bool     \<comment> \<open>\<open>stop()\<close> was called\<close>

record live =
  status :: status
  volume :: "real option"
  streamRef :: "nat option"
  audioContextRef :: "nat option"
  sessionRef :: bool
  sessionPromiseRef :: "nat option"
  nextStartTimeRef :: real
  sourcesRef :: "nat set"
  streams :: "bool list"      \<comment> \<open>per microphone stream: are its tracks live\<close>
  contexts :: "bool list"     \<comment> \<open>per audio context: is it open\<close>
  promises :: "promise list"
  sources :: "source list"    \<comment> \<open>every buffer source node created\<close>
  sent :: "jsstring list"     \<comment> \<open>the payloads given to \<open>session.sendRealtimeInput\<close>\<close>
  processing :: bool          \<comment> \<open>\<open>onaudioprocess\<close> is installed\<close>
  unhandledRejections :: nat  \<comment> \<open>rejections of derived promises the host has reported\<close>

definition initial :: live where
  "initial = \<lparr>status = Idle, volume = Some 0, streamRef = None, audioContextRef = None,
     sessionRef = False, sessionPromiseRef = None, nextStartTimeRef = 0, sourcesRef = {},
     streams = [], contexts = [], promises = [], sources = [], sent = [],
     processing = False, unhandledRejections = 0\<rparr>"

record message =
  inlineData :: "jsstring option"
    \<comment> \<open>\<open>message.serverContent?.modelTurn?.parts?.[0]?.inlineData?.data\<close>\<close>
  interrupted :: bool
    \<comment> \<open>\<open>message.serverContent?.interrupted\<close>\<close>

subsection \<open>\<open>startSession\<close>, split at its two \<open>await\<close>s\<close>

datatype ctx_outcome = BothCreated | InputCtxFails | OutputCtxFails

definition startSession_begin :: "ctx_outcome \<Rightarrow> live \<Rightarrow> live" where
  \<comment> \<open>\<open>setStatus('connecting')\<close>, the two contexts, up to \<open>await getUserMedia\<close>;
      a throwing constructor lands in the \<open>catch\<close>\<close>
  "startSession_begin outcome s =
     (let s = s\<lparr>status := Connecting\<rparr> in
      case outcome of
        InputCtxFails \<Rightarrow> s\<lparr>status := Error\<rparr>
      | OutputCtxFails \<Rightarrow> s\<lparr>contexts := contexts s @ [True], status := Error\<rparr>
      | BothCreated \<Rightarrow>
          s\<lparr>contexts := contexts s @ [True, True],
            audioContextRef := Some (length (contexts s) + 1)\<rparr>)"

definition startSession_gotStream :: "bool \<Rightarrow> live \<Rightarrow> live" where
  \<comment> \<open>\<open>getUserMedia\<close> settles: the stream is stored and \<open>connectLiveSession\<close> is called,
      or the rejection lands in the \<open>catch\<close>\<close>
  "startSession_gotStream granted s =
     (if granted
      then s\<lparr>streams := streams s @ [True],
             streamRef := Some (length (streams s)),
             promises := promises s @ [Pending []],
             sessionPromiseRef := Some (length (promises s))\<rparr>
      else s\<lparr>status := Error\<rparr>)"

definition sessionResolved :: "nat \<Rightarrow> live \<Rightarrow> live" where
  \<comment> \<open>the promise of \<open>connectLiveSession\<close> is fulfilled: the registered callbacks send
      their payloads in order, and \<open>startSession\<close> resumes with \<open>sessionRef.current = ...\<close>\<close>
  "sessionResolved p s =
     (if p < length (promises s)
      then (case promises s ! p of
              Pending queued \<Rightarrow>
                s\<lparr>promises := (promises s)[p := Fulfilled],
                  sent := sent s @ queued,
                  sessionRef := True\<rparr>
            | _ \<Rightarrow> s)
      else s)"

definition sessionRejected :: "nat \<Rightarrow> live \<Rightarrow> live" where
  \<comment> \<open>the promise is rejected: no callback runs, the promise derived for each of them is
      rejected with nothing to handle it, and \<open>startSession\<close> resumes in its \<open>catch\<close>\<close>
  "sessionRejected p s =
     (if p < length (promises s)
      then (case promises s ! p of
              Pending queued \<Rightarrow>
                s\<lparr>promises := (promises s)[p := Rejected],
                  unhandledRejections := unhandledRejections s + length queued,
                  status := Error\<rparr>
            | _ \<Rightarrow> s)
      else s)"

subsection \<open>The callbacks given to \<open>connectLiveSession\<close>\<close>

definition onOpen :: "live \<Rightarrow> live" where
  "onOpen s = s\<lparr>status := Connected, processing := True\<rparr>"

definition onClose :: "live \<Rightarrow> live" where
  "onClose s = s\<lparr>status := Idle\<rparr>"

definition onError :: "live \<Rightarrow> live" where
  "onError s = s\<lparr>status := Error\<rparr>"

definition stopSession :: "live \<Rightarrow> live" where
  "stopSession s =
     (let s = (case streamRef s of
                 None \<Rightarrow> s
               | Some i \<Rightarrow> s\<lparr>streams := (streams s)[i := False]\<rparr>);
          s = (case audioContextRef s of
                 None \<Rightarrow> s
               | Some j \<Rightarrow> s\<lparr>contexts := (contexts s)[j := False]\<rparr>)
      in s\<lparr>status := Idle\<rparr>)"

definition onaudioprocess :: "real list \<Rightarrow> live \<Rightarrow> js_error + live" where
  "onaudioprocess inputData s =
     (let s = s\<lparr>volume := frameVolume inputData\<rparr>;
          int16 = toPCM16 inputData
      in case encodePCM (bytesOfInt16 int16) of
           Inl e \<Rightarrow> Inl e
         | Inr pcmData \<Rightarrow>
             (case sessionPromiseRef s of
                None \<Rightarrow> Inr s
              | Some p \<Rightarrow>
                  if p < length (promises s)
                  then (case promises s ! p of
                          Pending queued \<Rightarrow>
                            Inr (s\<lparr>promises := (promises s)[p := Pending (queued @ [pcmData])]\<rparr>)
                        | Fulfilled \<Rightarrow> Inr (s\<lparr>sent := sent s @ [pcmData]\<rparr>)
                        | Rejected \<Rightarrow>
                            Inr (s\<lparr>unhandledRejections := unhandledRejections s + 1\<rparr>))
                  else Inr s))"

text \<open>
  The audio part of \<open>onMessage\<close>, up to the buffer: the payload is decoded, viewed as
  16-bit samples and copied into a buffer of that many frames at 24000 Hz.
  \<open>createBuffer\<close> throws a \<open>NotSupportedError\<close> for a length of zero.
\<close>

definition createBufferFrom :: "jsstring \<Rightarrow> js_error + real list" where
  "createBufferFrom base64Audio =
     (case decodeAudio base64Audio of
        Inl e \<Rightarrow> Inl e
      | Inr audioData \<Rightarrow>
          (case int16View audioData of
             Inl e \<Rightarrow> Inl e
           | Inr dataInt16 \<Rightarrow>
               if length dataInt16 = 0 then Inl NotSupportedError
               else Inr (map (\<lambda>w. real_of_int (sint w) / 32768) dataInt16)))"

definition bufferDuration :: "real list \<Rightarrow> real" where
  "bufferDuration channelData = real (length channelData) / 24000"

definition playBuffer :: "real list \<Rightarrow> real \<Rightarrow> live \<Rightarrow> live" where
  \<comment> \<open>"Play Audio": \<open>currentTime\<close> is the output context's clock when the message arrives\<close>
  "playBuffer buffer currentTime s =
     (let s = s\<lparr>nextStartTimeRef := max (nextStartTimeRef s) currentTime\<rparr>;
          src = \<lparr>startTime = nextStartTimeRef s, duration = bufferDuration buffer,
                 stopped = False\<rparr>;
          s = s\<lparr>sources := sources s @ [src]\<rparr>;
          s = s\<lparr>nextStartTimeRef := nextStartTimeRef s + bufferDuration buffer\<rparr>
      in s\<lparr>sourcesRef := insert (length (sources s) - 1) (sourcesRef s)\<rparr>)"

definition stopAll :: "nat set \<Rightarrow> source list \<Rightarrow> source list" where
  \<comment> \<open>\<open>sourcesRef.current.forEach(s => s.stop())\<close>\<close>
  "stopAll active srcs =
     map (\<lambda>(i, src). if i \<in> active then src\<lparr>stopped := True\<rparr> else src)
       (zip [0 ..< length srcs] srcs)"

definition handleInterrupted :: "live \<Rightarrow> live" where
  "handleInterrupted s =
     s\<lparr>sources := stopAll (sourcesRef s) (sources s), sourcesRef := {}, nextStartTimeRef := 0\<rparr>"

definition onMessage :: "message \<Rightarrow> real \<Rightarrow> live \<Rightarrow> js_error + live" where
  "onMessage msg currentTime s =
     (let played =
            (case inlineData msg of
               None \<Rightarrow> Inr s
             | Some base64Audio \<Rightarrow>
                 if base64Audio = [] then Inr s
                 else (case createBufferFrom base64Audio of
                         Inl e \<Rightarrow> Inl e
                       | Inr buffer \<Rightarrow> Inr (playBuffer buffer currentTime s)))
      in case played of
           Inl e \<Rightarrow> Inl e
         | Inr s \<Rightarrow> Inr (if interrupted msg then handleInterrupted s else s))"

definition onended :: "nat \<Rightarrow> live \<Rightarrow> live" where
  \<comment> \<open>\<open>source.onended = () => sourcesRef.current.delete(source)\<close>\<close>
  "onended i s = s\<lparr>sourcesRef := sourcesRef s - {i}\<rparr>"

subsection \<open>Events\<close>

text \<open>
  Everything runs on one thread, one callback at a time. An exception leaving a callback
  is reported by the browser and the refs stay as the callback left them; the two
  callbacks that can throw do so before their first write.
\<close>

datatype event =
    StartSession ctx_outcome
  | MicResult bool
  | SessionResolved nat
  | SessionRejected nat
  | Open
  | Message message real
  | Close
  | TransportError
  | StopSession
  | AudioProcess "real list"
  | Ended nat

fun step :: "event \<Rightarrow> live \<Rightarrow> live" where
  "step (StartSession outcome) s = startSession_begin outcome s"
| "step (MicResult granted) s = startSession_gotStream granted s"
| "step (SessionResolved p) s = sessionResolved p s"
| "step (SessionRejected p) s = sessionRejected p s"
| "step Open s = onOpen s"
| "step (Message msg currentTime) s =
     (case onMessage msg currentTime s of Inl e \<Rightarrow> s | Inr s' \<Rightarrow> s')"
| "step Close s = onClose s"
| "step TransportError s = onError s"
| "step StopSession s = stopSession s"
| "step (AudioProcess inputData) s =
     (if processing s
      then (case onaudioprocess inputData s of Inl e \<Rightarrow> s | Inr s' \<Rightarrow> s')
      else s)"
| "step (Ended i) s = onended i s"

fun run :: "event list \<Rightarrow> live \<Rightarrow> live" where
  "run [] s = s"
| "run (e # es) s = run es (step e s)"

subsection \<open>Vocabulary for the playback properties\<close>

text \<open>
  A message is an audio chunk when it carries no interruption flag and its payload passes
  the \<open>if (base64Audio)\<close> test and decodes to a buffer. The audio part of a message is
  harmless when there is no payload, or an empty one, or one that decodes to a buffer.
\<close>

definition audioChunk :: "message \<Rightarrow> bool" where
  "audioChunk msg \<longleftrightarrow>
     \<not> interrupted msg \<and>
     (case inlineData msg of
        None \<Rightarrow> False
      | Some base64Audio \<Rightarrow>
          base64Audio \<noteq> [] \<and>
          (case createBufferFrom base64Audio of Inl e \<Rightarrow> False | Inr buffer \<Rightarrow> True))"

definition audioPartOk :: "message \<Rightarrow> bool" where
  "audioPartOk msg \<longleftrightarrow>
     (case inlineData msg of
        None \<Rightarrow> True
      | Some base64Audio \<Rightarrow>
          base64Audio = [] \<or>
          (case createBufferFrom base64Audio of Inl e \<Rightarrow> False | Inr buffer \<Rightarrow> True))"

definition deliver :: "(message \<times> real) list \<Rightarrow> live \<Rightarrow> live" where
  \<comment> \<open>the messages arrive in order, each at its reading of the output clock\<close>
  "deliver msgs s = run (map (\<lambda>(msg, currentTime). Message msg currentTime) msgs) s"

definition scheduled :: "(message \<times> real) list \<Rightarrow> live \<Rightarrow> source list" where
  \<comment> \<open>the source nodes created while the messages are handled\<close>
  "scheduled msgs s = drop (length (sources s)) (sources (deliver msgs s))"

definition unitEnd :: "source \<Rightarrow> real" where
  "unitEnd src = startTime src + duration src"

section \<open>The history store\<close>

datatype CEFRLevel = A1 | A2 | B1 | B2 | C1

record EvaluationResult =
  grammar_correction :: string
  vocabulary_suggestions :: string
  sentence_structure_fix :: string
  strengths :: "string list"
  weaknesses :: "string list"
  score :: real
  corrected_answer :: string
  professional_model_answer :: string

record HistoryItem =
  item_id :: string
  timestamp :: int
  levelId :: CEFRLevel
  topicName :: string
  question :: string
  userAnswer :: string
  evaluation :: EvaluationResult

text \<open>
  What \<open>localStorage\<close> holds under the history key, told apart by what \<open>getItem\<close> and
  \<open>JSON.parse\<close> make of it: no entry, the empty string, a text that is not JSON, the JSON
  text of an array of items (what \<open>JSON.stringify\<close> writes), or the JSON text of a value
  that cannot be spread (null, a number, a boolean, an object). \<open>setItem\<close> throws when
  the storage refuses the write (quota exceeded, or storage disabled).
\<close>

datatype stored = NoEntry | EmptyString | NotJson | JsonArray "HistoryItem list" | JsonNotIterable

record localStorage =
  entry :: stored
  writable :: bool

datatype parsed = Items "HistoryItem list" | NotIterable

definition setItem :: "stored \<Rightarrow> localStorage \<Rightarrow> js_error + localStorage" where
  "setItem v st = (if writable st then Inr (st\<lparr>entry := v\<rparr>) else Inl QuotaExceededError)"

definition getHistory :: "localStorage \<Rightarrow> parsed" where
  "getHistory st =
     (case entry st of
        NoEntry \<Rightarrow> Items []
      | EmptyString \<Rightarrow> Items []
      | NotJson \<Rightarrow> Items []
      | JsonArray items \<Rightarrow> Items items
      | JsonNotIterable \<Rightarrow> NotIterable)"

definition saveHistoryItem :: "HistoryItem \<Rightarrow> localStorage \<Rightarrow> localStorage" where
  "saveHistoryItem item st =
     (case getHistory st of
        NotIterable \<Rightarrow> st
      | Items existingHistory \<Rightarrow>
          (let updatedHistory = item # existingHistory;
               trimmedHistory = take 50 updatedHistory
           in case setItem (JsonArray trimmedHistory) st of
                Inl e \<Rightarrow> st
              | Inr st' \<Rightarrow> st'))"

definition clearHistory :: "localStorage \<Rightarrow> localStorage" where
  "clearHistory st = st\<lparr>entry := NoEntry\<rparr>"


text \<open>An item to try the store on.\<close>

definition exampleItem :: "string \<Rightarrow> HistoryItem" where
  "exampleItem name =
     \<lparr>item_id = name, timestamp = 1700000000000, levelId = B1, topicName = ''Travel'',
      question = ''Where did you go last summer?'', userAnswer = ''I go to the sea.'',
      evaluation = \<lparr>grammar_correction = ''went'', vocabulary_suggestions = ''seaside'',
        sentence_structure_fix = ''I went to the sea.'', strengths = [''clear''],
        weaknesses = [''tense''], score = 6, corrected_answer = ''I went to the sea.'',
        professional_model_answer = ''Last summer I went to the seaside.''\<rparr>\<rparr>"

section \<open>Properties of the transport encoding\<close>

lemma div_mod_pack:
  fixes x y k :: nat
  assumes "y < k"
  shows "(x * k + y) div k = x" and "(x * k + y) mod k = y"
  using assms by simp_all

lemma grp1:
  fixes a b :: nat
  assumes "b < 256"
  shows "a div 4 * 4 + (a mod 4 * 16 + b div 16) div 16 = a"
proof -
  have "b div 16 < 16" using assms by (simp add: less_mult_imp_div_less)
  then have "(a mod 4 * 16 + b div 16) div 16 = a mod 4" by (rule div_mod_pack)
  then show ?thesis by simp
qed

lemma grp2:
  fixes a b c :: nat
  assumes "b < 256" "c < 256"
  shows "(a mod 4 * 16 + b div 16) mod 16 * 16 + (b mod 16 * 4 + c div 64) div 4 = b"
proof -
  have "b div 16 < 16" using assms by (simp add: less_mult_imp_div_less)
  then have 1: "(a mod 4 * 16 + b div 16) mod 16 = b div 16" by (rule div_mod_pack)
  have "c div 64 < 4" using assms by (simp add: less_mult_imp_div_less)
  then have 2: "(b mod 16 * 4 + c div 64) div 4 = b mod 16" by (rule div_mod_pack)
  show ?thesis unfolding 1 2 by simp
qed

lemma grp3:
  fixes b c :: nat
  assumes "c < 256"
  shows "(b mod 16 * 4 + c div 64) mod 4 * 64 + c mod 64 = c"
proof -
  have "c div 64 < 4" using assms by (simp add: less_mult_imp_div_less)
  then have "(b mod 16 * 4 + c div 64) mod 4 = c div 64" by (rule div_mod_pack)
  then show ?thesis by simp
qed

lemma grp2_short:
  fixes a b :: nat
  assumes "b < 256"
  shows "(a mod 4 * 16 + b div 16) mod 16 * 16 + (b mod 16 * 4) div 4 = b"
proof -
  have "b div 16 < 16" using assms by (simp add: less_mult_imp_div_less)
  then have 1: "(a mod 4 * 16 + b div 16) mod 16 = b div 16" by (rule div_mod_pack)
  show ?thesis unfolding 1 by simp
qed

lemma grp1_short: "a div 4 * 4 + (a mod 4 * 16) div 16 = (a::nat)"
  by simp

lemma unat_byte: "unat (b :: byte) < 256"
  using unsigned_less [of b] by simp

lemma byte_of_unat: "of_nat (unat (b :: byte)) = b"
  by simp

lemma fromSextets_toSextets: "fromSextets (toSextets bs) = bs"
proof (induction bs rule: toSextets.induct)
  case (1 a b c rest)
  have "fromSextets (toSextets (a # b # c # rest)) =
        [of_nat (unat a), of_nat (unat b), of_nat (unat c)] @ fromSextets (toSextets rest)"
    by (simp only: toSextets.simps fromSextets.simps append.simps
          grp1 [OF unat_byte] grp2 [OF unat_byte unat_byte] grp3 [OF unat_byte])
  with 1 show ?case by (simp only: byte_of_unat append.simps)
next
  case (2 a b)
  have "fromSextets (toSextets [a, b]) = [of_nat (unat a), of_nat (unat b)]"
    by (simp only: toSextets.simps fromSextets.simps append.simps
          grp1 [OF unat_byte] grp2_short [OF unat_byte])
  then show ?case by (simp only: byte_of_unat)
next
  case (3 a)
  have "fromSextets (toSextets [a]) = [of_nat (unat a)]"
    by (simp only: toSextets.simps fromSextets.simps append.simps grp1_short)
  then show ?case by (simp only: byte_of_unat)
qed simp


lemma unat_b64char:
  "unat (b64char i) =
     (if i < 26 then 65 + i else if i < 52 then 97 + (i - 26)
      else if i < 62 then 48 + (i - 52) else if i = 62 then 43 else 47)"
  unfolding b64char_def
  by (simp del: of_nat_add of_nat_diff add: unat_of_nat)

lemma b64index_b64char: "i < 64 \<Longrightarrow> b64index (b64char i) = Some i"
  unfolding b64index_def Let_def unat_b64char
  by auto

lemma b64char_not_pad: "b64char i \<noteq> padChar"
proof
  assume "b64char i = padChar"
  then have "unat (b64char i) = unat padChar" by simp
  then show False
    unfolding unat_b64char padChar_def by (simp split: if_splits)
qed

lemma b64char_not_ws: "\<not> isAsciiWhitespace (b64char i)"
proof
  assume "isAsciiWhitespace (b64char i)"
  then have "unat (b64char i) \<in> {9, 10, 12, 13, 32}"
    unfolding isAsciiWhitespace_def by auto
  then show False
    unfolding unat_b64char by (auto split: if_splits)
qed

lemma padChar_not_ws: "\<not> isAsciiWhitespace padChar"
  by (simp add: isAsciiWhitespace_def padChar_def)

lemma toSextets_bound: "i \<in> set (toSextets bs) \<Longrightarrow> i < 64"
proof (induction bs rule: toSextets.induct)
  case (1 a b c rest)
  have "unat a < 256" "unat b < 256" "unat c < 256" by (rule unat_byte)+
  with 1 show ?case by (auto simp: less_mult_imp_div_less)
next
  case (2 a b)
  have "unat a < 256" "unat b < 256" by (rule unat_byte)+
  with 2 show ?case by (auto simp: less_mult_imp_div_less)
next
  case (3 a)
  have "unat a < 256" by (rule unat_byte)
  with 3 show ?case by (auto simp: less_mult_imp_div_less)
qed simp

lemma sextetsOf_map_b64char:
  "\<forall>i \<in> set is. i < 64 \<Longrightarrow> sextetsOf (map b64char is) = Some is"
  by (induction "is") (simp_all add: b64index_b64char)

lemma pad_simps:
  "(3 - length (a # b # c # rest) mod 3) mod 3 = (3 - length rest mod 3) mod 3"
  "(3 - length [a, b] mod 3) mod 3 = 1"
  "(3 - length [a] mod 3) mod 3 = 2"
  "(3 - length ([]::'a list) mod 3) mod 3 = 0"
proof -
  have "length (a # b # c # rest) = length rest + 3" by simp
  then have "length (a # b # c # rest) mod 3 = length rest mod 3"
    by (simp only: mod_add_self2)
  then show "(3 - length (a # b # c # rest) mod 3) mod 3 = (3 - length rest mod 3) mod 3"
    by (simp only:)
  have "length [a, b] = 2" by simp
  then show "(3 - length [a, b] mod 3) mod 3 = 1" by (simp only:) simp
  have "length [a] = 1" by simp
  then show "(3 - length [a] mod 3) mod 3 = 2" by (simp only:) simp
  show "(3 - length ([]::'a list) mod 3) mod 3 = 0" by simp
qed

lemma base64Encode_simps:
  "base64Encode (a # b # c # rest) = map b64char (toSextets [a, b, c]) @ base64Encode rest"
  "base64Encode [a, b] = map b64char (toSextets [a, b]) @ [padChar]"
  "base64Encode [a] = map b64char (toSextets [a]) @ [padChar, padChar]"
  "base64Encode [] = []"
  unfolding base64Encode_def pad_simps
  by (simp_all add: numeral_2_eq_2)

lemma length_base64Encode: "length (base64Encode bs) mod 4 = 0"
  by (induction bs rule: toSextets.induct) (simp_all add: base64Encode_simps)

lemma length_toSextets_mod: "length (toSextets bs) mod 4 \<noteq> Suc 0"
  by (induction bs rule: toSextets.induct) simp_all

lemma filter_ws_base64Encode:
  "filter (\<lambda>c. \<not> isAsciiWhitespace c) (base64Encode bs) = base64Encode bs"
  by (rule filter_True) (auto simp: base64Encode_def b64char_not_ws padChar_not_ws)

lemma stripPadding_body:
  assumes "k \<le> 2"
  shows "stripPadding (map b64char xs @ replicate k padChar) = map b64char xs"
proof -
  consider "k = 0" | "k = 1" | "k = 2" using assms by linarith
  then show ?thesis
  proof cases
    case 1
    show ?thesis
    proof (cases xs rule: rev_cases)
      case Nil
      with 1 show ?thesis by (simp add: stripPadding_def)
    next
      case (snoc ys y)
      with 1 show ?thesis by (simp add: stripPadding_def b64char_not_pad)
    qed
  next
    case 2
    show ?thesis
    proof (cases xs rule: rev_cases)
      case Nil
      with 2 show ?thesis by (simp add: stripPadding_def)
    next
      case (snoc ys y)
      with 2 show ?thesis by (simp add: stripPadding_def b64char_not_pad butlast_append)
    qed
  next
    case 3
    then have "replicate k padChar = [padChar, padChar]" by (simp add: numeral_2_eq_2)
    then show ?thesis by (simp add: stripPadding_def butlast_append)
  qed
qed

lemma atob_base64Encode: "atob (base64Encode bs) = Inr (map fromCharCode bs)"
proof -
  have pad: "(3 - length bs mod 3) mod 3 \<le> 2" by simp
  have strip: "stripPadding (base64Encode bs) = map b64char (toSextets bs)"
    unfolding base64Encode_def by (rule stripPadding_body [OF pad])
  have sext: "sextetsOf (map b64char (toSextets bs)) = Some (toSextets bs)"
    by (rule sextetsOf_map_b64char) (simp add: toSextets_bound)
  have len: "length (map b64char (toSextets bs)) mod 4 \<noteq> 1"
    using length_toSextets_mod [of bs] by simp
  have "atob (base64Encode bs) =
        (if length (map b64char (toSextets bs)) mod 4 = 1 then Inl InvalidCharacterError
         else (case sextetsOf (map b64char (toSextets bs)) of
                 None \<Rightarrow> Inl InvalidCharacterError
               | Some is \<Rightarrow> Inr (map ucast (fromSextets is))))"
    unfolding atob_def filter_ws_base64Encode Let_def
    by (simp only: length_base64Encode strip refl if_True)
  also have "\<dots> = Inr (map ucast (fromSextets (toSextets bs)))"
    using len by (simp only: sext if_False option.case)
  finally show ?thesis
    by (simp add: fromSextets_toSextets fromCharCode_def)
qed

lemma encodePCM_loop_eq:
  "encodePCM_loop bytes i binary = binary @ map fromCharCode (drop i bytes)"
proof (induction bytes i binary rule: encodePCM_loop.induct)
  case (1 bytes i binary)
  show ?case
  proof (cases "i < length bytes")
    case True
    then have "drop i bytes = bytes ! i # drop (Suc i) bytes"
      by (simp add: Cons_nth_drop_Suc)
    with True 1 show ?thesis by (simp add: encodePCM_loop.simps [of bytes i])
  next
    case False
    then show ?thesis by (simp add: encodePCM_loop.simps [of bytes i])
  qed
qed

lemma btoa_bytes: "btoa (map fromCharCode bs) = Inr (base64Encode bs)"
proof -
  have small: "\<not> (\<exists>c \<in> set (map fromCharCode bs). 255 < unat c)"
  proof
    assume "\<exists>c \<in> set (map fromCharCode bs). 255 < unat c"
    then obtain b :: byte where "255 < unat (ucast b :: code_unit)"
      by (auto simp: fromCharCode_def)
    moreover have "unat (ucast b :: code_unit) = unat b"
      using unat_byte [of b] by (simp add: unsigned_ucast_eq take_bit_nat_eq_self)
    ultimately show False using unat_byte [of b] by simp
  qed
  have inv: "map ucast (map fromCharCode bs) = bs"
    by (simp add: fromCharCode_def o_def ucast_up_ucast_id is_up)
  show ?thesis unfolding btoa_def using small inv by simp
qed

lemma encodePCM_eq: "encodePCM bytes = Inr (base64Encode bytes)"
  by (simp add: encodePCM_def encodePCM_loop_eq btoa_bytes)

lemma decodeAudio_loop_eq:
  "length bytes = length s \<Longrightarrow> i \<le> length s \<Longrightarrow>
   decodeAudio_loop s i bytes = take i bytes @ map storeUint8 (drop i s)"
proof (induction s i bytes rule: decodeAudio_loop.induct)
  case (1 s i bytes)
  show ?case
  proof (cases "i < length s")
    case True
    have d: "drop i s = s ! i # drop (Suc i) s"
      using True by (simp add: Cons_nth_drop_Suc)
    have "decodeAudio_loop s i bytes
          = take (Suc i) (bytes[i := storeUint8 (s ! i)]) @ map storeUint8 (drop (Suc i) s)"
      using 1 True by (simp add: decodeAudio_loop.simps [of s i])
    also have "take (Suc i) (bytes[i := storeUint8 (s ! i)]) = take i bytes @ [storeUint8 (s ! i)]"
      using True 1(2) by (simp add: take_Suc_conv_app_nth)
    finally show ?thesis using d by simp
  next
    case False
    then have "decodeAudio_loop s i bytes = bytes"
      by (subst decodeAudio_loop.simps) simp
    with False 1(2,3) show ?thesis by simp
  qed
qed

lemma decodeAudio_eq:
  "decodeAudio base64 = (case atob base64 of Inl e \<Rightarrow> Inl e | Inr s \<Rightarrow> Inr (map storeUint8 s))"
  by (simp add: decodeAudio_def decodeAudio_loop_eq split: sum.splits)

lemma arrayBufferToBase64_loop_eq:
  "arrayBufferToBase64_loop bytes i binary = binary @ map fromCharCode (drop i bytes)"
proof (induction bytes i binary rule: arrayBufferToBase64_loop.induct)
  case (1 bytes i binary)
  show ?case
  proof (cases "i < length bytes")
    case True
    then have "drop i bytes = bytes ! i # drop (Suc i) bytes"
      by (simp add: Cons_nth_drop_Suc)
    with True 1 show ?thesis by (simp add: arrayBufferToBase64_loop.simps [of bytes i])
  next
    case False
    then show ?thesis by (simp add: arrayBufferToBase64_loop.simps [of bytes i])
  qed
qed

lemma storeUint8_fromCharCode: "map storeUint8 (map fromCharCode bytes) = bytes"
  by (induction bytes) (simp_all add: storeUint8_def fromCharCode_def ucast_up_ucast_id is_up)

lemma low_byte: "(ucast (ucast w :: byte) :: 16 word) = take_bit 8 w" for w :: "16 word"
  by (rule bit_eqI) (auto simp: bit_simps)

lemma high_byte: "(ucast (ucast (drop_bit 8 w) :: byte) :: 16 word) = drop_bit 8 w" for w :: "16 word"
  by (rule bit_eqI) (auto simp: bit_simps dest: bit_imp_le_length)

lemma join_bytes:
  "ucast (ucast w :: byte) + push_bit 8 (ucast (ucast (drop_bit 8 w) :: byte)) = w" for w :: "16 word"
proof -
  have h: "take_bit 8 (drop_bit 8 w) = drop_bit 8 w"
    using high_byte [of w] by (simp only: low_byte)
  show ?thesis
    using bits_ident [of 8 w] by (simp only: low_byte h add.commute)
qed

lemma pairBytes_bytesOfInt16: "pairBytes (bytesOfInt16 ws) = ws"
  by (induction ws) (simp_all add: join_bytes)

lemma length_bytesOfInt16: "length (bytesOfInt16 ws) = 2 * length ws"
  by (induction ws) simp_all

lemma int16View_bytesOfInt16: "int16View (bytesOfInt16 ws) = Inr ws"
  by (simp add: int16View_def length_bytesOfInt16 pairBytes_bytesOfInt16)


lemma decodeAudio_base64Encode: "decodeAudio (base64Encode bytes) = Inr bytes"
  by (simp only: decodeAudio_eq atob_base64Encode sum.case storeUint8_fromCharCode)

text \<open>
  C3. Round trip: for every byte array, \<open>encodePCM\<close> returns a string (it never throws),
  and \<open>decodeAudio\<close> of that string returns the same bytes, in the same number and order.
  In particular a frame of 16-bit samples, viewed as bytes, encoded, decoded and viewed as
  16-bit samples again, is the frame it was.
\<close>

theorem decodeAudio_encodePCM:
  "(\<exists>base64. encodePCM bytes = Inr base64 \<and> decodeAudio base64 = Inr bytes) \<and>
   (\<exists>base64 decoded.
      encodePCM (bytesOfInt16 samples) = Inr base64 \<and>
      decodeAudio base64 = Inr decoded \<and>
      length decoded = 2 * length samples \<and>
      int16View decoded = Inr samples)"
proof -
  have bytes: "\<exists>base64. encodePCM bytes = Inr base64 \<and> decodeAudio base64 = Inr bytes"
    using encodePCM_eq [of bytes] decodeAudio_base64Encode [of bytes] by blast
  have frame: "\<exists>base64 decoded.
      encodePCM (bytesOfInt16 samples) = Inr base64 \<and>
      decodeAudio base64 = Inr decoded \<and>
      length decoded = 2 * length samples \<and>
      int16View decoded = Inr samples"
    using encodePCM_eq [of "bytesOfInt16 samples"]
      decodeAudio_base64Encode [of "bytesOfInt16 samples"]
      length_bytesOfInt16 [of samples] int16View_bytesOfInt16 [of samples]
    by blast
  from bytes frame show ?thesis by blast
qed

text \<open>
  C10. The two byte-to-base64 encoders, \<open>arrayBufferToBase64\<close> of the service layer and
  \<open>encodePCM\<close> of the live conversation component, return the same string on every
  byte sequence.
\<close>

theorem arrayBufferToBase64_encodePCM: "arrayBufferToBase64 bytes = encodePCM bytes"
  by (simp add: arrayBufferToBase64_def encodePCM_def
        arrayBufferToBase64_loop_eq encodePCM_loop_eq)


section \<open>Properties of the playback pipeline\<close>

lemma createBufferFrom_nonempty: "createBufferFrom b = Inr buffer \<Longrightarrow> buffer \<noteq> []"
  by (auto simp: createBufferFrom_def split: sum.splits if_splits)

lemma bufferDuration_pos: "buffer \<noteq> [] \<Longrightarrow> 0 < bufferDuration buffer"
  by (simp add: bufferDuration_def)

lemma playBuffer_sources:
  "sources (playBuffer buffer t s) =
     sources s @ [\<lparr>startTime = max (nextStartTimeRef s) t,
                   duration = bufferDuration buffer, stopped = False\<rparr>]"
  by (simp add: playBuffer_def Let_def)

lemma playBuffer_clock:
  "nextStartTimeRef (playBuffer buffer t s) = max (nextStartTimeRef s) t + bufferDuration buffer"
  by (simp add: playBuffer_def Let_def)

lemma playBuffer_sourcesRef:
  "sourcesRef (playBuffer buffer t s) = insert (length (sources s)) (sourcesRef s)"
  by (simp add: playBuffer_def Let_def)

lemma audioChunk_onMessage:
  assumes "audioChunk msg"
  shows "\<exists>buffer. buffer \<noteq> [] \<and> onMessage msg t s = Inr (playBuffer buffer t s)"
proof -
  from assms obtain b where b: "inlineData msg = Some b" "b \<noteq> []" "\<not> interrupted msg"
    by (auto simp: audioChunk_def split: option.splits)
  from assms b obtain buffer where buf: "createBufferFrom b = Inr buffer"
    by (auto simp: audioChunk_def split: sum.splits)
  have "onMessage msg t s = Inr (playBuffer buffer t s)"
    using b buf by (simp add: onMessage_def)
  with createBufferFrom_nonempty [OF buf] show ?thesis by blast
qed

lemma run_append: "run (xs @ ys) s = run ys (run xs s)"
  by (induction xs arbitrary: s) simp_all

lemma deliver_snoc: "deliver (msgs @ [(msg, t)]) s = step (Message msg t) (deliver msgs s)"
  by (simp add: deliver_def run_append)

lemma deliver_Nil: "deliver [] s = s"
  by (simp add: deliver_def)

text \<open>One more chunk: what it adds to the state reached so far.\<close>

lemma step_chunk:
  assumes "audioChunk msg"
  shows "\<exists>d. 0 < d \<and>
     sources (step (Message msg t) s) =
       sources s @ [\<lparr>startTime = max (nextStartTimeRef s) t, duration = d, stopped = False\<rparr>] \<and>
     nextStartTimeRef (step (Message msg t) s) = max (nextStartTimeRef s) t + d"
proof -
  from audioChunk_onMessage [OF assms, of t s] obtain buffer where
    "buffer \<noteq> []" "onMessage msg t s = Inr (playBuffer buffer t s)" by blast
  then show ?thesis
    using bufferDuration_pos [of buffer]
    by (auto simp: playBuffer_sources playBuffer_clock intro!: exI [of _ "bufferDuration buffer"])
qed


lemma deliver_chunks:
  assumes "\<forall>x \<in> set msgs. audioChunk (fst x)"
  shows "\<exists>srcs. sources (deliver msgs s) = sources s @ srcs \<and> length srcs = length msgs \<and>
     (\<forall>k < length msgs.
        startTime (srcs ! k) = max (nextStartTimeRef (deliver (take k msgs) s)) (snd (msgs ! k)) \<and>
        nextStartTimeRef (deliver (take (Suc k) msgs) s) = unitEnd (srcs ! k) \<and>
        0 < duration (srcs ! k)) \<and>
     (\<forall>k < length msgs. unitEnd (srcs ! k) \<le> nextStartTimeRef (deliver msgs s)) \<and>
     (\<forall>j < length msgs. \<forall>i < j. unitEnd (srcs ! i) \<le> startTime (srcs ! j))"
  using assms
proof (induction msgs rule: rev_induct)
  case Nil
  show ?case by (simp add: deliver_Nil)
next
  case (snoc x msgs)
  obtain msg t where x: "x = (msg, t)" by (cases x)
  from snoc.prems have chunk: "audioChunk msg" and rest: "\<forall>x \<in> set msgs. audioChunk (fst x)"
    by (simp_all add: x)
  from snoc.IH [OF rest] obtain srcs where
    src: "sources (deliver msgs s) = sources s @ srcs" and
    len: "length srcs = length msgs" and
    each: "\<And>k. k < length msgs \<Longrightarrow>
        startTime (srcs ! k) = max (nextStartTimeRef (deliver (take k msgs) s)) (snd (msgs ! k)) \<and>
        nextStartTimeRef (deliver (take (Suc k) msgs) s) = unitEnd (srcs ! k) \<and>
        0 < duration (srcs ! k)" and
    bound: "\<And>k. k < length msgs \<Longrightarrow> unitEnd (srcs ! k) \<le> nextStartTimeRef (deliver msgs s)" and
    order: "\<And>i j. j < length msgs \<Longrightarrow> i < j \<Longrightarrow> unitEnd (srcs ! i) \<le> startTime (srcs ! j)"
    by blast
  define before where "before = deliver msgs s"
  from step_chunk [OF chunk, of t before] obtain d where
    d: "0 < d" and
    new: "sources (step (Message msg t) before) =
            sources before @ [\<lparr>startTime = max (nextStartTimeRef before) t, duration = d, stopped = False\<rparr>]" and
    clock: "nextStartTimeRef (step (Message msg t) before) = max (nextStartTimeRef before) t + d"
    by blast
  define u where "u = \<lparr>startTime = max (nextStartTimeRef before) t, duration = d, stopped = False\<rparr>"
  have after: "deliver (msgs @ [x]) s = step (Message msg t) before"
    by (simp add: x deliver_snoc before_def)
  have u_end: "unitEnd u = nextStartTimeRef (deliver (msgs @ [x]) s)"
    by (simp add: unitEnd_def u_def after clock del: step.simps)
  have grow: "nextStartTimeRef before \<le> nextStartTimeRef (deliver (msgs @ [x]) s)"
    using d by (simp add: after clock del: step.simps)
  have 1: "sources (deliver (msgs @ [x]) s) = sources s @ (srcs @ [u])"
    by (simp add: after new u_def src [folded before_def] del: step.simps)
  have 2: "length (srcs @ [u]) = length (msgs @ [x])"
    by (simp add: len)
  have 3: "startTime ((srcs @ [u]) ! k) =
             max (nextStartTimeRef (deliver (take k (msgs @ [x])) s)) (snd ((msgs @ [x]) ! k)) \<and>
           nextStartTimeRef (deliver (take (Suc k) (msgs @ [x])) s) = unitEnd ((srcs @ [u]) ! k) \<and>
           0 < duration ((srcs @ [u]) ! k)"
    if "k < length (msgs @ [x])" for k
  proof (cases "k < length msgs")
    case True
    then show ?thesis using each [OF True] by (simp add: nth_append len)
  next
    case False
    with that have k: "k = length msgs" by simp
    show ?thesis
      using d by (simp add: k nth_append len u_end) (simp add: u_def x before_def)
  qed
  have 4: "unitEnd ((srcs @ [u]) ! k) \<le> nextStartTimeRef (deliver (msgs @ [x]) s)"
    if "k < length (msgs @ [x])" for k
  proof (cases "k < length msgs")
    case True
    then show ?thesis
      using bound [OF True] grow by (simp add: nth_append len before_def)
  next
    case False
    with that have k: "k = length msgs" by simp
    show ?thesis by (simp add: k nth_append len u_end)
  qed
  have 5: "unitEnd ((srcs @ [u]) ! i) \<le> startTime ((srcs @ [u]) ! j)"
    if "j < length (msgs @ [x])" "i < j" for i j
  proof (cases "j < length msgs")
    case True
    then show ?thesis using order [OF True that(2)] that(2) by (simp add: nth_append len)
  next
    case False
    with that have j: "j = length msgs" by simp
    have "unitEnd (srcs ! i) \<le> nextStartTimeRef before"
      using bound [of i] that(2) j by (simp add: before_def)
    then show ?thesis
      using that(2) by (simp add: j nth_append len u_def)
  qed
  show ?case
    using 1 2 3 4 5 by blast
qed

lemma createBufferFrom_AAA: "createBufferFrom [65, 65, 65, 61] = Inr [0]"
  by (simp add: createBufferFrom_def decodeAudio_eq atob_def Let_def isAsciiWhitespace_def
        stripPadding_def padChar_def b64index_def int16View_def storeUint8_def)

lemma createBufferFrom_A: "createBufferFrom [65] = Inl InvalidCharacterError"
  by (simp add: createBufferFrom_def decodeAudio_eq atob_def Let_def isAsciiWhitespace_def
        stripPadding_def padChar_def b64index_def)

lemma length_stopAll: "length (stopAll active srcs) = length srcs"
  by (simp add: stopAll_def)

lemma stopAll_stopped:
  "i \<in> active \<Longrightarrow> i < length srcs \<Longrightarrow> stopped (stopAll active srcs ! i)"
  by (simp add: stopAll_def)

lemma handleInterrupted_resets:
  "sourcesRef (handleInterrupted s) = {}"
  "nextStartTimeRef (handleInterrupted s) = 0"
  "i \<in> sourcesRef s \<Longrightarrow> i < length (sources s) \<Longrightarrow> stopped (sources (handleInterrupted s) ! i)"
  by (simp_all add: handleInterrupted_def stopAll_stopped)

lemma audioPartOk_onMessage:
  assumes "audioPartOk msg"
  shows "onMessage msg t s = Inr (if interrupted msg then handleInterrupted s else s) \<or>
         (\<exists>buffer. onMessage msg t s =
            Inr (if interrupted msg then handleInterrupted (playBuffer buffer t s)
                 else playBuffer buffer t s))"
  using assms
  by (auto simp: audioPartOk_def onMessage_def split: option.splits sum.splits)


text \<open>
  C1. Scheduling of audio chunks. Let any number of audio chunks arrive one after the
  other, with no interruption, from any state \<open>s\<close>, the \<open>k\<close>-th at the output clock
  reading \<open>snd (msgs ! k)\<close>. Each of them creates one source node. The node of chunk
  \<open>k\<close> starts at the maximum of \<open>nextStartTimeRef\<close> (as it stands when the chunk arrives)
  and the clock reading, \<open>nextStartTimeRef\<close> is then its start plus its duration, and
  the duration is positive. Hence a later node never starts before an earlier one has
  ended, and when the next chunk arrives no later than \<open>nextStartTimeRef\<close>, its node
  starts exactly where the previous one ends. Times are real numbers here.
\<close>

theorem chunks_play_back_to_back:
  assumes "\<forall>x \<in> set msgs. audioChunk (fst x)"
  shows "length (scheduled msgs s) = length msgs \<and>
     (\<forall>k < length msgs.
        startTime (scheduled msgs s ! k) =
          max (nextStartTimeRef (deliver (take k msgs) s)) (snd (msgs ! k)) \<and>
        nextStartTimeRef (deliver (take (Suc k) msgs) s) =
          startTime (scheduled msgs s ! k) + duration (scheduled msgs s ! k) \<and>
        0 < duration (scheduled msgs s ! k)) \<and>
     (\<forall>j < length msgs. \<forall>i < j.
        startTime (scheduled msgs s ! i) + duration (scheduled msgs s ! i)
          \<le> startTime (scheduled msgs s ! j)) \<and>
     (\<forall>k. Suc k < length msgs \<longrightarrow>
        snd (msgs ! Suc k) \<le> nextStartTimeRef (deliver (take (Suc k) msgs) s) \<longrightarrow>
        startTime (scheduled msgs s ! Suc k) =
          startTime (scheduled msgs s ! k) + duration (scheduled msgs s ! k))"
proof -
  from deliver_chunks [OF assms, of s] obtain srcs where
    src: "sources (deliver msgs s) = sources s @ srcs" and
    len: "length srcs = length msgs" and
    each: "\<And>k. k < length msgs \<Longrightarrow>
        startTime (srcs ! k) = max (nextStartTimeRef (deliver (take k msgs) s)) (snd (msgs ! k)) \<and>
        nextStartTimeRef (deliver (take (Suc k) msgs) s) = unitEnd (srcs ! k) \<and>
        0 < duration (srcs ! k)" and
    order: "\<And>i j. j < length msgs \<Longrightarrow> i < j \<Longrightarrow> unitEnd (srcs ! i) \<le> startTime (srcs ! j)"
    by blast
  have sched: "scheduled msgs s = srcs"
    by (simp add: scheduled_def src)
  have gapless: "startTime (srcs ! Suc k) = startTime (srcs ! k) + duration (srcs ! k)"
    if "Suc k < length msgs"
      and "snd (msgs ! Suc k) \<le> nextStartTimeRef (deliver (take (Suc k) msgs) s)" for k
  proof -
    have "startTime (srcs ! Suc k) =
            max (nextStartTimeRef (deliver (take (Suc k) msgs) s)) (snd (msgs ! Suc k))"
      using each [OF that(1)] by simp
    also have "\<dots> = nextStartTimeRef (deliver (take (Suc k) msgs) s)"
      using that(2) by simp
    also have "\<dots> = unitEnd (srcs ! k)"
      using each [of k] that(1) by simp
    finally show ?thesis by (simp add: unitEnd_def)
  qed
  show ?thesis
    unfolding sched using len each order gapless
    by (simp add: unitEnd_def)
qed


theorem chunks_play_back_to_back_witness:
  "audioChunk \<lparr>inlineData = Some [65, 65, 65, 61], interrupted = False\<rparr> \<and>
   length (scheduled [(\<lparr>inlineData = Some [65, 65, 65, 61], interrupted = False\<rparr>, 0),
                      (\<lparr>inlineData = Some [65, 65, 65, 61], interrupted = False\<rparr>, 0)] initial) = 2 \<and>
   startTime (scheduled [(\<lparr>inlineData = Some [65, 65, 65, 61], interrupted = False\<rparr>, 0),
                      (\<lparr>inlineData = Some [65, 65, 65, 61], interrupted = False\<rparr>, 0)] initial ! 1) =
     startTime (scheduled [(\<lparr>inlineData = Some [65, 65, 65, 61], interrupted = False\<rparr>, 0),
                      (\<lparr>inlineData = Some [65, 65, 65, 61], interrupted = False\<rparr>, 0)] initial ! 0) +
     duration (scheduled [(\<lparr>inlineData = Some [65, 65, 65, 61], interrupted = False\<rparr>, 0),
                      (\<lparr>inlineData = Some [65, 65, 65, 61], interrupted = False\<rparr>, 0)] initial ! 0)"
proof -
  define msgs :: "(message \<times> real) list" where
    "msgs = [(\<lparr>inlineData = Some [65, 65, 65, 61], interrupted = False\<rparr>, 0),
             (\<lparr>inlineData = Some [65, 65, 65, 61], interrupted = False\<rparr>, 0)]"
  have h: "\<forall>x \<in> set msgs. audioChunk (fst x)"
    by (simp add: msgs_def audioChunk_def createBufferFrom_AAA)
  have early: "snd (msgs ! Suc 0) \<le> nextStartTimeRef (deliver (take (Suc 0) msgs) initial)"
    by (simp add: msgs_def deliver_def onMessage_def createBufferFrom_AAA playBuffer_def
          initial_def Let_def bufferDuration_def)
  have two: "Suc 0 < length msgs" "length msgs = 2"
    by (simp_all add: msgs_def)
  from chunks_play_back_to_back [OF h, of initial] early two
  have "length (scheduled msgs initial) = 2 \<and>
        startTime (scheduled msgs initial ! Suc 0) =
          startTime (scheduled msgs initial ! 0) + duration (scheduled msgs initial ! 0)"
    by metis
  with h show ?thesis unfolding msgs_def by simp
qed

text \<open>
  C2. Interruption. For every state and every message that carries the interruption
  flag and whose audio part is harmless (no payload, an empty one, or one that decodes
  to a buffer), \<open>onMessage\<close> returns; afterwards \<open>sourcesRef\<close> is empty,
  \<open>nextStartTimeRef\<close> is zero and every source node that was in \<open>sourcesRef\<close> has been
  stopped. The node of any audio chunk handled next starts at the maximum of zero and the
  output clock, whatever \<open>nextStartTimeRef\<close> was before the interruption.
\<close>

theorem interrupted_resets_playback:
  assumes "interrupted msg" and "audioPartOk msg"
  shows "\<exists>s'. onMessage msg t s = Inr s' \<and>
           sourcesRef s' = {} \<and>
           nextStartTimeRef s' = 0 \<and>
           (\<forall>i \<in> sourcesRef s. i < length (sources s) \<longrightarrow> stopped (sources s' ! i)) \<and>
           (\<forall>next t'. audioChunk next \<longrightarrow>
              (\<exists>s''. onMessage next t' s' = Inr s'' \<and>
                 startTime (last (sources s'')) = max 0 t'))"
proof -
  have after: "\<exists>s''. onMessage next t' s' = Inr s'' \<and> startTime (last (sources s'')) = max 0 t'"
    if "nextStartTimeRef s' = 0" "audioChunk next" for s' :: live and "next" t'
  proof -
    from audioChunk_onMessage [OF that(2), of t' s'] obtain buffer where
      "onMessage next t' s' = Inr (playBuffer buffer t' s')" by blast
    then show ?thesis by (simp add: playBuffer_sources that(1))
  qed
  from audioPartOk_onMessage [OF assms(2), of t s] assms(1)
  consider "onMessage msg t s = Inr (handleInterrupted s)"
    | buffer where "onMessage msg t s = Inr (handleInterrupted (playBuffer buffer t s))"
    by auto
  then show ?thesis
  proof cases
    case 1
    then show ?thesis
      using after [of "handleInterrupted s"]
      by (simp add: handleInterrupted_resets)
  next
    case 2
    have "stopped (sources (handleInterrupted (playBuffer buffer t s)) ! i)"
      if "i \<in> sourcesRef s" "i < length (sources s)" for i
      using that
      by (intro handleInterrupted_resets(3)) (simp_all add: playBuffer_sourcesRef playBuffer_sources)
    with 2 show ?thesis
      using after [of "handleInterrupted (playBuffer buffer t s)"]
      by (simp add: handleInterrupted_resets)
  qed
qed

theorem interrupted_resets_playback_witness:
  "interrupted \<lparr>inlineData = None, interrupted = True\<rparr> \<and>
   audioPartOk \<lparr>inlineData = None, interrupted = True\<rparr> \<and>
   (\<exists>s'. onMessage \<lparr>inlineData = None, interrupted = True\<rparr> 3
            (step (Message \<lparr>inlineData = Some [65, 65, 65, 61], interrupted = False\<rparr> 2) initial)
            = Inr s' \<and>
      sourcesRef s' = {} \<and> nextStartTimeRef s' = 0 \<and> stopped (sources s' ! 0))"
proof -
  have h1: "interrupted \<lparr>inlineData = None, interrupted = True\<rparr>" by simp
  have h2: "audioPartOk \<lparr>inlineData = None, interrupted = True\<rparr>"
    by (simp add: audioPartOk_def)
  have active: "0 \<in> sourcesRef (step (Message \<lparr>inlineData = Some [65, 65, 65, 61], interrupted = False\<rparr> 2) initial)"
    "0 < length (sources (step (Message \<lparr>inlineData = Some [65, 65, 65, 61], interrupted = False\<rparr> 2) initial))"
    by (simp_all add: onMessage_def createBufferFrom_AAA playBuffer_def initial_def Let_def)
  from interrupted_resets_playback [OF h1 h2, of 3
      "step (Message \<lparr>inlineData = Some [65, 65, 65, 61], interrupted = False\<rparr> 2) initial"]
    active h1 h2
  show ?thesis by blast
qed

text \<open>
  The restriction to a harmless audio part is needed. The audio part of a message is
  handled first, and \<open>atob\<close> throws on the one-character payload \<open>A\<close>: the handler is
  left before it reads the flag, the source node scheduled earlier stays in \<open>sourcesRef\<close>,
  is not stopped, and \<open>nextStartTimeRef\<close> keeps its value.
\<close>

theorem interrupted_with_undecodable_audio:
  "onMessage \<lparr>inlineData = Some [65], interrupted = True\<rparr> 3
     (step (Message \<lparr>inlineData = Some [65, 65, 65, 61], interrupted = False\<rparr> 2) initial)
     = Inl InvalidCharacterError \<and>
   sourcesRef (run [Message \<lparr>inlineData = Some [65, 65, 65, 61], interrupted = False\<rparr> 2,
                    Message \<lparr>inlineData = Some [65], interrupted = True\<rparr> 3] initial) = {0} \<and>
   nextStartTimeRef (run [Message \<lparr>inlineData = Some [65, 65, 65, 61], interrupted = False\<rparr> 2,
                    Message \<lparr>inlineData = Some [65], interrupted = True\<rparr> 3] initial)
     = 2 + 1 / 24000 \<and>
   \<not> stopped (sources (run [Message \<lparr>inlineData = Some [65, 65, 65, 61], interrupted = False\<rparr> 2,
                    Message \<lparr>inlineData = Some [65], interrupted = True\<rparr> 3] initial) ! 0)"
  by (simp add: onMessage_def createBufferFrom_AAA createBufferFrom_A playBuffer_def
        initial_def Let_def bufferDuration_def)



section \<open>Properties of the session lifecycle\<close>

text \<open>
  C4. The lifecycle. From \<open>idle\<close>, \<open>startSession\<close> sets the status to \<open>connecting\<close>; the
  open callback in \<open>connecting\<close> sets it to \<open>connected\<close>; \<open>stopSession\<close> sets it to
  \<open>idle\<close> from any state; the error callback and every startup failure (a context that
  cannot be created, a refused microphone, a rejected connection) set it to \<open>error\<close>; the
  close callback sets it to \<open>idle\<close>; and from \<open>error\<close> a new \<open>startSession\<close> goes
  through \<open>connecting\<close> to \<open>connected\<close> again.
\<close>

theorem lifecycle_transitions:
  "(status s = Idle \<longrightarrow> status (step (StartSession BothCreated) s) = Connecting) \<and>
   (status s = Connecting \<longrightarrow> status (step Open s) = Connected) \<and>
   status (step StopSession s) = Idle \<and>
   status (step TransportError s) = Error \<and>
   status (step (StartSession InputCtxFails) s) = Error \<and>
   status (step (StartSession OutputCtxFails) s) = Error \<and>
   status (step (MicResult False) s) = Error \<and>
   (p < length (promises s) \<and> promises s ! p = Pending queued \<longrightarrow>
      status (step (SessionRejected p) s) = Error) \<and>
   status (step Close s) = Idle \<and>
   (status s = Error \<longrightarrow>
      status (run [StartSession BothCreated] s) = Connecting \<and>
      status (run [StartSession BothCreated, MicResult True] s) = Connecting \<and>
      status (run [StartSession BothCreated, MicResult True, Open] s) = Connected)"
  by (simp add: startSession_begin_def startSession_gotStream_def sessionRejected_def
        onOpen_def onClose_def onError_def stopSession_def Let_def split: option.splits)

theorem lifecycle_transitions_witness:
  "status initial = Idle \<and>
   status (step (StartSession BothCreated) initial) = Connecting \<and>
   status (initial\<lparr>status := Connecting\<rparr>) = Connecting \<and>
   status (step Open (initial\<lparr>status := Connecting\<rparr>)) = Connected \<and>
   (0 < length (promises (initial\<lparr>promises := [Pending []]\<rparr>)) \<and>
    promises (initial\<lparr>promises := [Pending []]\<rparr>) ! 0 = Pending []) \<and>
   status (step (SessionRejected 0) (initial\<lparr>promises := [Pending []]\<rparr>)) = Error \<and>
   status (initial\<lparr>status := Error\<rparr>) = Error \<and>
   status (run [StartSession BothCreated, MicResult True, Open] (initial\<lparr>status := Error\<rparr>))
     = Connected"
  using lifecycle_transitions [of initial 0 "[]"]
    lifecycle_transitions [of "initial\<lparr>status := Connecting\<rparr>" 0 "[]"]
    lifecycle_transitions [of "initial\<lparr>promises := [Pending []]\<rparr>" 0 "[]"]
    lifecycle_transitions [of "initial\<lparr>status := Error\<rparr>" 0 "[]"]
  by (simp add: initial_def)

text \<open>
  C5. Release of resources on failure. The error callback and the \<open>catch\<close> of
  \<open>startSession\<close> only set the status. After a session has started and the transport
  reports an error, the status is \<open>error\<close> while the microphone tracks are still live and
  both audio contexts still open; the same holds when the connection is rejected.
  \<open>stopSession\<close>, from the same state, stops the tracks and closes the output context.
\<close>

theorem error_keeps_resources:
  "status (run [StartSession BothCreated, MicResult True, Open, TransportError] initial) = Error \<and>
   streams (run [StartSession BothCreated, MicResult True, Open, TransportError] initial) = [True] \<and>
   contexts (run [StartSession BothCreated, MicResult True, Open, TransportError] initial) = [True, True] \<and>
   streams (run [StartSession BothCreated, MicResult True, Open, StopSession] initial) = [False] \<and>
   contexts (run [StartSession BothCreated, MicResult True, Open, StopSession] initial) = [True, False] \<and>
   status (run [StartSession BothCreated, MicResult True, SessionRejected 0] initial) = Error \<and>
   streams (run [StartSession BothCreated, MicResult True, SessionRejected 0] initial) = [True] \<and>
   contexts (run [StartSession BothCreated, MicResult True, SessionRejected 0] initial) = [True, True]"
  by (simp add: startSession_begin_def startSession_gotStream_def sessionRejected_def
        onOpen_def onError_def stopSession_def initial_def Let_def)

section \<open>Properties of the capture pipeline\<close>

lemma volume_loop_eq:
  "volume_loop inputData i acc = acc + (\<Sum>x\<leftarrow>drop i inputData. x * x)"
proof (induction inputData i acc rule: volume_loop.induct)
  case (1 inputData i acc)
  show ?case
  proof (cases "i < length inputData")
    case True
    then have "drop i inputData = inputData ! i # drop (Suc i) inputData"
      by (simp add: Cons_nth_drop_Suc)
    with True 1 show ?thesis by (simp add: volume_loop.simps [of inputData i])
  next
    case False
    then show ?thesis by (simp add: volume_loop.simps [of inputData i])
  qed
qed

lemma sum_squares_nonneg: "0 \<le> (\<Sum>x\<leftarrow>xs. x * x)" for xs :: "real list"
  by (induction xs) simp_all

lemma sum_squares_pos:
  "x \<in> set xs \<Longrightarrow> x \<noteq> 0 \<Longrightarrow> 0 < (\<Sum>x\<leftarrow>xs. x * x)" for xs :: "real list"
proof (induction xs)
  case Nil
  then show ?case by simp
next
  case (Cons y ys)
  show ?case
  proof (cases "y = 0")
    case True
    with Cons show ?thesis by auto
  next
    case False
    then have "0 < y * y" by (auto simp: zero_less_mult_iff)
    with sum_squares_nonneg [of ys] show ?thesis by simp
  qed
qed

lemma sum_squares_zero:
  "\<forall>x \<in> set xs. x = 0 \<Longrightarrow> (\<Sum>x\<leftarrow>xs. x * x) = 0" for xs :: "real list"
  by (induction xs) simp_all

text \<open>
  C6. Loudness. For a frame with at least one sample (the script processor delivers 4096)
  the value given to \<open>setVolume\<close> is the root of the mean of the squared samples; it is
  zero when every sample is zero and positive when some sample is not. Samples are real
  numbers here.
\<close>

theorem frame_loudness:
  assumes "inputData \<noteq> []"
  shows "frameVolume inputData =
           Some (sqrt ((\<Sum>x\<leftarrow>inputData. x * x) / real (length inputData))) \<and>
         ((\<forall>x \<in> set inputData. x = 0) \<longrightarrow> frameVolume inputData = Some 0) \<and>
         ((\<exists>x \<in> set inputData. x \<noteq> 0) \<longrightarrow> (\<exists>v. frameVolume inputData = Some v \<and> 0 < v))"
proof -
  have rms: "frameVolume inputData =
           Some (sqrt ((\<Sum>x\<leftarrow>inputData. x * x) / real (length inputData)))"
    using assms by (simp add: frameVolume_def volume_loop_eq)
  have len: "0 < real (length inputData)" using assms by simp
  have zero: "frameVolume inputData = Some 0" if "\<forall>x \<in> set inputData. x = 0"
    using sum_squares_zero [OF that] rms by simp
  have pos: "\<exists>v. frameVolume inputData = Some v \<and> 0 < v" if "\<exists>x \<in> set inputData. x \<noteq> 0"
  proof -
    from that obtain x where "x \<in> set inputData" "x \<noteq> 0" by blast
    then have "0 < (\<Sum>x\<leftarrow>inputData. x * x)" by (rule sum_squares_pos)
    with len have "0 < (\<Sum>x\<leftarrow>inputData. x * x) / real (length inputData)" by simp
    then show ?thesis using rms by simp
  qed
  from rms zero pos show ?thesis by blast
qed

theorem frame_loudness_witness:
  "[0, 0 :: real] \<noteq> [] \<and> frameVolume [0, 0] = Some 0 \<and>
   [3, 4 :: real] \<noteq> [] \<and> (\<exists>v. frameVolume [3, 4] = Some v \<and> 0 < v)"
  using frame_loudness [of "[0, 0]"] frame_loudness [of "[3, 4]"]
  by simp


lemma int16_loop_eq:
  "length int16 = length inputData \<Longrightarrow> i \<le> length inputData \<Longrightarrow>
   int16_loop inputData i int16 =
     take i int16 @ map (\<lambda>x. toInt16 (x * 32768)) (drop i inputData)"
proof (induction inputData i int16 rule: int16_loop.induct)
  case (1 inputData i int16)
  show ?case
  proof (cases "i < length inputData")
    case True
    have d: "drop i inputData = inputData ! i # drop (Suc i) inputData"
      using True by (simp add: Cons_nth_drop_Suc)
    have "int16_loop inputData i int16 =
            take (Suc i) (int16[i := toInt16 (inputData ! i * 32768)]) @
            map (\<lambda>x. toInt16 (x * 32768)) (drop (Suc i) inputData)"
      using 1 True by (simp add: int16_loop.simps [of inputData i])
    also have "take (Suc i) (int16[i := toInt16 (inputData ! i * 32768)]) =
                 take i int16 @ [toInt16 (inputData ! i * 32768)]"
      using True 1(2) by (simp add: take_Suc_conv_app_nth)
    finally show ?thesis using d by simp
  next
    case False
    then have "int16_loop inputData i int16 = int16"
      by (subst int16_loop.simps) simp
    with False 1(2,3) show ?thesis by simp
  qed
qed

lemma toPCM16_eq: "toPCM16 inputData = map (\<lambda>x. toInt16 (x * 32768)) inputData"
  by (simp add: toPCM16_def int16_loop_eq)

lemma sint_toInt16: "sint (toInt16 y) = (jsTruncate y + 32768) mod 65536 - 32768"
  by (simp add: toInt16_def sint_sbintrunc' signed_take_bit_eq_take_bit_shift take_bit_eq_mod)

lemma jsTruncate_range:
  assumes "- 32768 \<le> y" "y < 32768"
  shows "- 32768 \<le> jsTruncate y \<and> jsTruncate y < 32768"
proof (cases "0 \<le> y")
  case True
  then have "0 \<le> \<lfloor>y\<rfloor>" by simp
  moreover have "\<lfloor>y\<rfloor> < 32768" using assms(2) by (simp add: floor_less_iff)
  ultimately show ?thesis using True by (simp add: jsTruncate_def)
next
  case False
  then have "\<lceil>y\<rceil> \<le> 0" by (simp add: ceiling_le_iff)
  moreover have "- 32768 \<le> \<lceil>y\<rceil>" using assms(1) by (simp add: le_ceiling_iff)
  ultimately show ?thesis using False by (simp add: jsTruncate_def)
qed

text \<open>
  C7. Conversion to 16 bits. Each sample is multiplied by 32768 and stored with
  \<open>ToInt16\<close>: the stored value is the truncated product taken modulo \<open>2 ^ 16\<close> into the
  signed range. For a sample in \<open>[-1, 1)\<close> that is the truncated product itself, and
  the product itself when it is an integer; the sample 1 is stored as -32768, not as
  32767.
\<close>

theorem sample_conversion:
  assumes "i < length inputData"
  shows "sint (toPCM16 inputData ! i) =
           (jsTruncate (inputData ! i * 32768) + 32768) mod 65536 - 32768 \<and>
         (- 1 \<le> inputData ! i \<and> inputData ! i < 1 \<longrightarrow>
            sint (toPCM16 inputData ! i) = jsTruncate (inputData ! i * 32768)) \<and>
         (- 1 \<le> inputData ! i \<and> inputData ! i < 1 \<and> inputData ! i * 32768 = real_of_int k \<longrightarrow>
            sint (toPCM16 inputData ! i) = k) \<and>
         (inputData ! i = 1 \<longrightarrow> sint (toPCM16 inputData ! i) = - 32768)"
proof -
  have nth: "toPCM16 inputData ! i = toInt16 (inputData ! i * 32768)"
    using assms by (simp add: toPCM16_eq)
  have wrap: "sint (toPCM16 inputData ! i) =
           (jsTruncate (inputData ! i * 32768) + 32768) mod 65536 - 32768"
    by (simp only: nth sint_toInt16)
  have exact: "sint (toPCM16 inputData ! i) = jsTruncate (inputData ! i * 32768)"
    if "- 1 \<le> inputData ! i" "inputData ! i < 1"
  proof -
    from that have "- 32768 \<le> inputData ! i * 32768" "inputData ! i * 32768 < 32768" by simp_all
    from jsTruncate_range [OF this] show ?thesis unfolding wrap by simp
  qed
  have one: "sint (toPCM16 inputData ! i) = - 32768" if "inputData ! i = 1"
    unfolding wrap that by (simp add: jsTruncate_def)
  have scaled: "sint (toPCM16 inputData ! i) = k"
    if "- 1 \<le> inputData ! i" "inputData ! i < 1" "inputData ! i * 32768 = real_of_int k"
    using exact [OF that(1,2)] by (simp add: that(3) jsTruncate_def)
  from wrap exact scaled one show ?thesis by blast
qed

theorem sample_conversion_witness:
  "(0 :: nat) < length [1 / 2, 1, - 1, 3 / 2 :: real] \<and>
   sint (toPCM16 [1 / 2, 1, - 1, 3 / 2] ! 0) = 16384 \<and>
   sint (toPCM16 [1 / 2, 1, - 1, 3 / 2] ! 1) = - 32768"
  using sample_conversion [of 0 "[1 / 2, 1, - 1, 3 / 2]"]
    sample_conversion [of 1 "[1 / 2, 1, - 1, 3 / 2]"]
  by (simp add: jsTruncate_def)

lemma onaudioprocess_eq:
  "onaudioprocess inputData s =
     (case sessionPromiseRef s of
        None \<Rightarrow> Inr (s\<lparr>volume := frameVolume inputData\<rparr>)
      | Some p \<Rightarrow>
          if p < length (promises s)
          then (case promises s ! p of
                  Pending queued \<Rightarrow>
                    Inr (s\<lparr>volume := frameVolume inputData,
                           promises := (promises s)
                             [p := Pending (queued @ [base64Encode (bytesOfInt16 (toPCM16 inputData))])]\<rparr>)
                | Fulfilled \<Rightarrow>
                    Inr (s\<lparr>volume := frameVolume inputData,
                           sent := sent s @ [base64Encode (bytesOfInt16 (toPCM16 inputData))]\<rparr>)
                | Rejected \<Rightarrow>
                    Inr (s\<lparr>volume := frameVolume inputData,
                           unhandledRejections := unhandledRejections s + 1\<rparr>))
          else Inr (s\<lparr>volume := frameVolume inputData\<rparr>))"
  by (simp add: onaudioprocess_def encodePCM_eq Let_def split: option.splits promise.splits)

text \<open>
  C8. Frames captured before the connection has settled. \<open>onaudioprocess\<close> never throws
  and leaves the handler installed, so later frames are handled too. While the promise
  of the connection is pending, the frame's payload is queued on the promise, nothing is
  sent and nothing is reported; when the promise is then fulfilled the queued payloads
  are sent in order, still with nothing reported. When the promise is then rejected,
  none of the queued payloads is ever sent, also not by a later fulfilment, and the host
  reports one unhandled rejection for each of them. A frame captured after the rejection
  is not sent and not queued either, and it adds one more unhandled rejection. With no
  promise at all the frame is dropped and nothing is reported.
\<close>

theorem frames_before_session_resolves:
  "\<exists>pcmData s'.
     encodePCM (bytesOfInt16 (toPCM16 inputData)) = Inr pcmData \<and>
     onaudioprocess inputData s = Inr s' \<and>
     processing s' = processing s \<and> status s' = status s \<and>
     sessionPromiseRef s' = sessionPromiseRef s \<and>
     (\<forall>p queued.
        sessionPromiseRef s = Some p \<and> p < length (promises s) \<and>
        promises s ! p = Pending queued \<longrightarrow>
          promises s' = (promises s)[p := Pending (queued @ [pcmData])] \<and>
          sent s' = sent s \<and>
          unhandledRejections s' = unhandledRejections s \<and>
          sent (sessionResolved p s') = sent s @ queued @ [pcmData] \<and>
          unhandledRejections (sessionResolved p s') = unhandledRejections s \<and>
          sent (sessionRejected p s') = sent s \<and>
          sent (sessionResolved p (sessionRejected p s')) = sent s \<and>
          unhandledRejections (sessionRejected p s') =
            unhandledRejections s + length queued + 1) \<and>
     (\<forall>p. sessionPromiseRef s = Some p \<and> p < length (promises s) \<and>
        promises s ! p = Rejected \<longrightarrow>
          promises s' = promises s \<and> sent s' = sent s \<and>
          sent (sessionResolved p s') = sent s \<and>
          unhandledRejections s' = unhandledRejections s + 1) \<and>
     (\<forall>p. sessionPromiseRef s = Some p \<and> p < length (promises s) \<and>
        promises s ! p = Fulfilled \<longrightarrow>
          promises s' = promises s \<and> sent s' = sent s @ [pcmData] \<and>
          unhandledRejections s' = unhandledRejections s) \<and>
     (sessionPromiseRef s = None \<longrightarrow>
        promises s' = promises s \<and> sent s' = sent s \<and>
        unhandledRejections s' = unhandledRejections s)"
proof -
  define pcmData where "pcmData = base64Encode (bytesOfInt16 (toPCM16 inputData))"
  have enc: "encodePCM (bytesOfInt16 (toPCM16 inputData)) = Inr pcmData"
    by (simp add: pcmData_def encodePCM_eq)
  show ?thesis
  proof (cases "sessionPromiseRef s")
    case None
    then show ?thesis
      using enc by (simp add: onaudioprocess_eq)
  next
    case (Some p)
    show ?thesis
    proof (cases "p < length (promises s)")
      case False
      with Some show ?thesis using enc by (simp add: onaudioprocess_eq)
    next
      case True
      show ?thesis
      proof (cases "promises s ! p")
        case (Pending queued)
        with Some True show ?thesis
          using enc
          by (simp add: onaudioprocess_eq pcmData_def sessionResolved_def sessionRejected_def)
      next
        case Fulfilled
        with Some True show ?thesis
          using enc by (simp add: onaudioprocess_eq pcmData_def)
      next
        case Rejected
        with Some True show ?thesis
          using enc by (simp add: onaudioprocess_eq sessionResolved_def)
      qed
    qed
  qed
qed

theorem frames_before_session_resolves_witness:
  "sessionPromiseRef (initial\<lparr>sessionPromiseRef := Some 0, promises := [Pending []]\<rparr>) = Some 0 \<and>
   0 < length (promises (initial\<lparr>sessionPromiseRef := Some 0, promises := [Pending []]\<rparr>)) \<and>
   promises (initial\<lparr>sessionPromiseRef := Some 0, promises := [Pending []]\<rparr>) ! 0 = Pending [] \<and>
   (\<exists>pcmData s'.
      onaudioprocess [0, 0]
        (initial\<lparr>sessionPromiseRef := Some 0, promises := [Pending []]\<rparr>) = Inr s' \<and>
      sent s' = [] \<and>
      unhandledRejections s' = 0 \<and>
      sent (sessionResolved 0 s') = [pcmData] \<and>
      unhandledRejections (sessionResolved 0 s') = 0 \<and>
      sent (sessionRejected 0 s') = [] \<and>
      unhandledRejections (sessionRejected 0 s') = 1)"
  using frames_before_session_resolves
    [of "[0, 0]" "initial\<lparr>sessionPromiseRef := Some 0, promises := [Pending []]\<rparr>"]
  by (auto simp: initial_def)

text \<open>
  The frames of a failed connection are not dropped in silence. A session is started,
  the transport opens, and the promise of the connection is rejected: the frame captured
  afterwards is not sent, and the host reports an unhandled rejection for it. When two
  frames are captured first and the promise is rejected afterwards, neither is sent and
  two unhandled rejections are reported.
\<close>

theorem rejected_connection_is_not_silent:
  "sent (run [StartSession BothCreated, MicResult True, Open, SessionRejected 0,
              AudioProcess [0, 0]] initial) = [] \<and>
   unhandledRejections (run [StartSession BothCreated, MicResult True, Open, SessionRejected 0,
              AudioProcess [0, 0]] initial) = 1 \<and>
   sent (run [StartSession BothCreated, MicResult True, Open,
              AudioProcess [0, 0], AudioProcess [0, 0], SessionRejected 0] initial) = [] \<and>
   unhandledRejections (run [StartSession BothCreated, MicResult True, Open,
              AudioProcess [0, 0], AudioProcess [0, 0], SessionRejected 0] initial) = 2"
  by (simp add: startSession_begin_def startSession_gotStream_def sessionRejected_def
        onOpen_def onaudioprocess_eq initial_def Let_def)

section \<open>Properties of the history store\<close>

text \<open>
  C9. Saving an item. When the storage accepts the write and \<open>getHistory\<close> reads the
  list \<open>prior\<close>, the stored list after \<open>saveHistoryItem\<close> is the new item followed by
  the first 49 items of \<open>prior\<close>, at most 50 entries. \<open>getHistory\<close> reads the empty list
  when there is no entry, or an empty one, or one that is not JSON.
\<close>

theorem saved_item_comes_first:
  assumes "writable st" and "getHistory st = Items prior"
  shows "entry (saveHistoryItem item st) = JsonArray (take 50 (item # prior)) \<and>
         getHistory (saveHistoryItem item st) = Items (item # take 49 prior) \<and>
         length (item # take 49 prior) \<le> 50 \<and>
         (entry st' = NoEntry \<or> entry st' = EmptyString \<or> entry st' = NotJson \<longrightarrow>
            getHistory st' = Items [])"
proof -
  have "take 50 (item # prior) = item # take 49 prior"
    by (simp add: take_Cons')
  then show ?thesis
    using assms by (auto simp: saveHistoryItem_def getHistory_def setItem_def Let_def)
qed

theorem saved_item_comes_first_witness:
  "writable \<lparr>entry = JsonArray [exampleItem ''a''], writable = True\<rparr> \<and>
   getHistory \<lparr>entry = JsonArray [exampleItem ''a''], writable = True\<rparr> = Items [exampleItem ''a''] \<and>
   getHistory (saveHistoryItem (exampleItem ''b'')
      \<lparr>entry = JsonArray [exampleItem ''a''], writable = True\<rparr>)
     = Items [exampleItem ''b'', exampleItem ''a''] \<and>
   entry \<lparr>entry = NoEntry, writable = True\<rparr> = NoEntry \<and>
   getHistory \<lparr>entry = NoEntry, writable = True\<rparr> = Items []"
  using saved_item_comes_first [of "\<lparr>entry = JsonArray [exampleItem ''a''], writable = True\<rparr>"
      "[exampleItem ''a'']" "exampleItem ''b''" "\<lparr>entry = NoEntry, writable = True\<rparr>"]
  by (simp add: getHistory_def)

text \<open>
  The write has to be accepted: \<open>saveHistoryItem\<close> catches the exception of \<open>setItem\<close> and
  logs it, so on a storage that refuses the write the stored list stays as it was.
\<close>

theorem save_fails_quietly:
  "getHistory (saveHistoryItem (exampleItem ''b'')
      \<lparr>entry = JsonArray [exampleItem ''a''], writable = False\<rparr>)
     = Items [exampleItem ''a'']"
  by (simp add: saveHistoryItem_def getHistory_def setItem_def)


end
